theory Spec2Isabelle
  imports Complex_Main "HOL-Library.Multiset" "HOL-Library.Product_Lexorder"
begin

section \<open>Strings and the library functions of \<^verbatim>\<open>str\<close>\<close>

text \<open>
  A Python \<^verbatim>\<open>str\<close> is a sequence of Unicode code points. A code point is modelled
  as a natural number, so that the whitespace characters beyond ASCII, which
  \<^verbatim>\<open>str.strip\<close>, \<^verbatim>\<open>str.split\<close> and the regular expression class
  \<^verbatim>\<open>\s\<close> all recognise, are part of the model. \<open>u\<close> reads an ASCII literal as
  such a string.
\<close>

type_synonym pystr = "nat list"

definition u :: "string \<Rightarrow> pystr" where
  "u s = map of_char s"

abbreviation hash :: nat where "hash \<equiv> 35"
abbreviation semicolon :: nat where "semicolon \<equiv> 59"
abbreviation colon :: nat where "colon \<equiv> 58"
abbreviation dot :: nat where "dot \<equiv> 46"
abbreviation underscore :: nat where "underscore \<equiv> 95"

text \<open>
  The characters CPython treats as whitespace (\<^verbatim>\<open>Py_UNICODE_ISSPACE\<close>): the ASCII
  controls 9 to 13 and 28 to 31, the space, and the Unicode separators.
\<close>

definition isspace :: "nat \<Rightarrow> bool" where
  "isspace c \<longleftrightarrow>
     (9 \<le> c \<and> c \<le> 13) \<or> (28 \<le> c \<and> c \<le> 32) \<or> c = 133 \<or> c = 160 \<or> c = 5760 \<or>
     (8192 \<le> c \<and> c \<le> 8202) \<or> c = 8232 \<or> c = 8233 \<or> c = 8239 \<or> c = 8287 \<or> c = 12288"

text \<open>Exceptions the modelled code can raise.\<close>

datatype pyerror =
  FileNotFoundError | PermissionError | IsADirectoryError | UnicodeDecodeError
  | OSError | ValueError | IndexError

text \<open>
  \<^verbatim>\<open>line.index(c)\<close>: the position of the first occurrence; Python raises
  \<^verbatim>\<open>ValueError\<close> when there is none, which is \<open>None\<close> here.
\<close>

fun py_index :: "'a list \<Rightarrow> 'a \<Rightarrow> nat option" where
  "py_index [] c = None"
| "py_index (x # xs) c = (if x = c then Some 0 else map_option Suc (py_index xs c))"

text \<open>\<^verbatim>\<open>line.strip()\<close>: whitespace removed at both ends.\<close>

definition lstrip :: "pystr \<Rightarrow> pystr" where
  "lstrip s = dropWhile isspace s"

definition rstrip :: "pystr \<Rightarrow> pystr" where
  "rstrip s = rev (dropWhile isspace (rev s))"

definition strip :: "pystr \<Rightarrow> pystr" where
  "strip s = rstrip (lstrip s)"

text \<open>
  \<^verbatim>\<open>s.split()\<close> with no argument: the maximal runs of non-whitespace characters,
  in order.
\<close>

function split :: "pystr \<Rightarrow> pystr list" where
  "split s =
     (let t = dropWhile isspace s
      in if t = [] then []
         else takeWhile (\<lambda>c. \<not> isspace c) t # split (dropWhile (\<lambda>c. \<not> isspace c) t))"
  by pat_completeness auto
termination
proof (relation "measure length")
  show "wf (measure length)" by simp
next
  fix s t :: pystr
  assume t: "t = dropWhile isspace s" and ne: "t \<noteq> []"
  have "length (dropWhile (\<lambda>c. \<not> isspace c) t) < length t"
  proof (cases t)
    case Nil
    with ne show ?thesis by simp
  next
    case (Cons c cs)
    with t have "\<not> isspace c"
      by (metis hd_dropWhile list.sel(1) ne)
    with Cons have "length (dropWhile (\<lambda>c. \<not> isspace c) t) \<le> length cs"
      by (simp add: length_dropWhile_le)
    with Cons show ?thesis by simp
  qed
  also have "length t \<le> length s"
    using t by (simp add: length_dropWhile_le)
  finally show "(dropWhile (\<lambda>c. \<not> isspace c) t, s) \<in> measure length" by simp
qed

declare split.simps [simp del]

section \<open>\<^verbatim>\<open>normalize_assembly_line\<close>\<close>

text \<open>
  \<^verbatim>\<open>
  if '#' in line: line = line[:line.index('#')]
  if ';' in line: line = line[:line.index(';')]
  line = line.strip()
  \<close>
  \<open>cut_at\<close> is one of the two guarded truncations; the \<^verbatim>\<open>ValueError\<close> of
  \<^verbatim>\<open>index\<close> is a branch of the model.
\<close>

definition cut_at :: "nat \<Rightarrow> pystr \<Rightarrow> pyerror + pystr" where
  "cut_at c line =
     (if c \<in> set line
      then (case py_index line c of None \<Rightarrow> Inl ValueError | Some n \<Rightarrow> Inr (take n line))
      else Inr line)"

definition normalize_assembly_line :: "pystr \<Rightarrow> pyerror + pystr" where
  "normalize_assembly_line line =
     (case cut_at hash line of
        Inl e \<Rightarrow> Inl e
      | Inr line1 \<Rightarrow>
          (case cut_at semicolon line1 of
             Inl e \<Rightarrow> Inl e
           | Inr line2 \<Rightarrow> Inr (strip line2)))"

text \<open>
  The specification's wording of the same operation: truncate at the first \<^verbatim>\<open>#\<close>,
  then at the first \<^verbatim>\<open>;\<close>, then strip.
\<close>

definition truncate_at :: "nat \<Rightarrow> pystr \<Rightarrow> pystr" where
  "truncate_at c s = takeWhile (\<lambda>x. x \<noteq> c) s"

definition normalize_spec :: "pystr \<Rightarrow> pystr" where
  "normalize_spec s = strip (truncate_at semicolon (truncate_at hash s))"

section \<open>\<^verbatim>\<open>extract_instructions\<close>\<close>

text \<open>
  \<^verbatim>\<open>re.match(r'^[.a-zA-Z_][a-zA-Z0-9_.]*:\s*$', normalized)\<close>: one character of the
  first class, the longest run of characters of the second class (the colon is not in
  it, so no shorter run can be followed by a colon), a colon, and then whitespace up to
  the end of the string (\<^verbatim>\<open>$\<close> also matches before a final newline, which
  \<^verbatim>\<open>\s*\<close> has consumed by then).
\<close>

definition label_first :: "nat \<Rightarrow> bool" where
  "label_first c \<longleftrightarrow> c = dot \<or> (97 \<le> c \<and> c \<le> 122) \<or> (65 \<le> c \<and> c \<le> 90) \<or> c = underscore"

definition label_rest :: "nat \<Rightarrow> bool" where
  "label_rest c \<longleftrightarrow>
     (97 \<le> c \<and> c \<le> 122) \<or> (65 \<le> c \<and> c \<le> 90) \<or> (48 \<le> c \<and> c \<le> 57) \<or> c = underscore \<or> c = dot"

definition re_match_label :: "pystr \<Rightarrow> bool" where
  "re_match_label s =
     (case s of
        [] \<Rightarrow> False
      | c # cs \<Rightarrow>
          label_first c \<and>
          (case dropWhile label_rest cs of
             [] \<Rightarrow> False
           | d # ws \<Rightarrow> d = colon \<and> list_all isspace ws))"

definition startswith :: "pystr \<Rightarrow> nat \<Rightarrow> bool" where
  "startswith s c = (case s of [] \<Rightarrow> False | x # _ \<Rightarrow> x = c)"

text \<open>
  The loop of \<^verbatim>\<open>extract_instructions\<close>, with the list built so far as accumulator;
  each \<^verbatim>\<open>continue\<close> is a recursive call that leaves it unchanged, and
  \<^verbatim>\<open>parts[0]\<close> is read under the guard \<^verbatim>\<open>if parts\<close>.
\<close>

fun extract_loop :: "pystr list \<Rightarrow> pystr list \<Rightarrow> pyerror + pystr list" where
  "extract_loop [] instructions = Inr instructions"
| "extract_loop (line # lines) instructions =
     (case normalize_assembly_line line of
        Inl e \<Rightarrow> Inl e
      | Inr normalized \<Rightarrow>
          if normalized = [] then extract_loop lines instructions
          else if re_match_label normalized then extract_loop lines instructions
          else if startswith normalized dot then extract_loop lines instructions
          else (case split normalized of
                  [] \<Rightarrow> extract_loop lines instructions
                | p # _ \<Rightarrow> extract_loop lines (instructions @ [p])))"

definition extract_instructions :: "pystr list \<Rightarrow> pyerror + pystr list" where
  "extract_instructions lines = extract_loop lines []"

text \<open>
  The specification's wording: the first whitespace-delimited token of every line
  whose normalisation is non-empty, is no label and does not start with a dot.
\<close>

definition first_token :: "pystr \<Rightarrow> pystr" where
  "first_token s = takeWhile (\<lambda>c. \<not> isspace c) (dropWhile isspace s)"

definition is_instruction_line :: "pystr \<Rightarrow> bool" where
  "is_instruction_line n \<longleftrightarrow> n \<noteq> [] \<and> \<not> re_match_label n \<and> \<not> startswith n dot"

definition extract_spec :: "pystr list \<Rightarrow> pystr list" where
  "extract_spec lines = map first_token (filter is_instruction_line (map normalize_spec lines))"

section \<open>\<^verbatim>\<open>difflib.SequenceMatcher\<close>\<close>

text \<open>
  \<^verbatim>\<open>SequenceMatcher(None, a, b)\<close> of the Python standard library, as the program calls
  it: no junk predicate, \<^verbatim>\<open>autojunk\<close> left at its default \<^verbatim>\<open>True\<close>.

  \<^verbatim>\<open>__chain_b\<close> maps every element of \<open>b\<close> to the ascending list of its positions
  and then deletes the popular elements: when \<open>b\<close> has 200 elements or more, those
  with more than \<open>len(b) // 100 + 1\<close> positions. The junk set stays empty.
\<close>

definition indices_of :: "'a list \<Rightarrow> 'a \<Rightarrow> nat list" where
  "indices_of b elt = filter (\<lambda>j. b ! j = elt) [0..<length b]"

definition bpopular :: "'a list \<Rightarrow> 'a \<Rightarrow> bool" where
  "bpopular b elt \<longleftrightarrow> 200 \<le> length b \<and> length b div 100 + 1 < length (indices_of b elt)"

definition b2j :: "'a list \<Rightarrow> 'a \<Rightarrow> nat list" where
  "b2j b elt = (if bpopular b elt then [] else indices_of b elt)"

definition isbjunk :: "'a list \<Rightarrow> 'a \<Rightarrow> bool" where
  "isbjunk b elt = False"

text \<open>
  \<^verbatim>\<open>j2len.get(j-1, 0)\<close>: for \<open>j = 0\<close> the key is \<open>-1\<close>, which no dictionary of
  positions holds.
\<close>

definition j2lenget :: "(nat \<rightharpoonup> nat) \<Rightarrow> nat \<Rightarrow> nat" where
  "j2lenget j2len j = (if j = 0 then 0 else case j2len (j - 1) of None \<Rightarrow> 0 | Some v \<Rightarrow> v)"

type_synonym match = "nat \<times> nat \<times> nat"

text \<open>
  The inner loop of \<^verbatim>\<open>find_longest_match\<close> over the positions of \<open>a[i]\<close> in \<open>b\<close>:
  \<^verbatim>\<open>
  for j in b2j.get(a[i], nothing):
      if j < blo: continue
      if j >= bhi: break
      k = newj2len[j] = j2lenget(j-1, 0) + 1
      if k > bestsize:
          besti, bestj, bestsize = i-k+1, j-k+1, k
  \<close>
  Here \<open>k \<le> i + 1\<close> and \<open>k \<le> j + 1\<close> (lemmas \<open>flm_inner_a\<close> and \<open>flm_inner_b\<close>), so
  the subtractions on natural numbers are the ones of the source.
\<close>

fun flm_inner ::
  "nat \<Rightarrow> nat \<Rightarrow> nat \<Rightarrow> (nat \<rightharpoonup> nat) \<Rightarrow> nat list \<Rightarrow> (nat \<rightharpoonup> nat) \<times> match \<Rightarrow> (nat \<rightharpoonup> nat) \<times> match"
where
  "flm_inner i blo bhi j2len [] st = st"
| "flm_inner i blo bhi j2len (j # js) (newj2len, besti, bestj, bestsize) =
     (if j < blo then flm_inner i blo bhi j2len js (newj2len, besti, bestj, bestsize)
      else if bhi \<le> j then (newj2len, besti, bestj, bestsize)
      else
        let k = j2lenget j2len j + 1
        in if bestsize < k
           then flm_inner i blo bhi j2len js (newj2len(j \<mapsto> k), i + 1 - k, j + 1 - k, k)
           else flm_inner i blo bhi j2len js (newj2len(j \<mapsto> k), besti, bestj, bestsize))"

text \<open>One pass of the outer loop \<^verbatim>\<open>for i in range(alo, ahi)\<close>, and the whole loop.\<close>

fun flm_row ::
  "'a list \<Rightarrow> 'a list \<Rightarrow> nat \<Rightarrow> nat \<Rightarrow> nat \<Rightarrow> (nat \<rightharpoonup> nat) \<times> match \<Rightarrow> (nat \<rightharpoonup> nat) \<times> match"
where
  "flm_row a b blo bhi i (j2len, best) =
     flm_inner i blo bhi j2len (b2j b (a ! i)) (Map.empty, best)"

definition flm_scan :: "'a list \<Rightarrow> 'a list \<Rightarrow> nat \<Rightarrow> nat \<Rightarrow> nat \<Rightarrow> nat \<Rightarrow> match" where
  "flm_scan a b alo ahi blo bhi =
     snd (fold (flm_row a b blo bhi) [alo..<ahi] (Map.empty, alo, blo, 0))"

text \<open>
  The four \<^verbatim>\<open>while\<close> loops that extend the best match at both ends, first over
  elements that are not junk (\<open>junk = False\<close>), then over junk (\<open>junk = True\<close>).
\<close>

function extend_back :: "'a list \<Rightarrow> 'a list \<Rightarrow> nat \<Rightarrow> nat \<Rightarrow> bool \<Rightarrow> match \<Rightarrow> match" where
  "extend_back a b alo blo junk (besti, bestj, bestsize) =
     (if alo < besti \<and> blo < bestj \<and> isbjunk b (b ! (bestj - 1)) = junk \<and>
         a ! (besti - 1) = b ! (bestj - 1)
      then extend_back a b alo blo junk (besti - 1, bestj - 1, bestsize + 1)
      else (besti, bestj, bestsize))"
  by pat_completeness auto
termination
  by (relation "measure (\<lambda>(a, b, alo, blo, junk, besti, bestj, bestsize). besti)") auto

function extend_fwd :: "'a list \<Rightarrow> 'a list \<Rightarrow> nat \<Rightarrow> nat \<Rightarrow> bool \<Rightarrow> match \<Rightarrow> match" where
  "extend_fwd a b ahi bhi junk (besti, bestj, bestsize) =
     (if besti + bestsize < ahi \<and> bestj + bestsize < bhi \<and>
         isbjunk b (b ! (bestj + bestsize)) = junk \<and>
         a ! (besti + bestsize) = b ! (bestj + bestsize)
      then extend_fwd a b ahi bhi junk (besti, bestj, bestsize + 1)
      else (besti, bestj, bestsize))"
  by pat_completeness auto
termination
  by (relation "measure (\<lambda>(a, b, ahi, bhi, junk, besti, bestj, bestsize). ahi - (besti + bestsize))")
    auto

declare extend_back.simps [simp del] extend_fwd.simps [simp del]

definition find_longest_match :: "'a list \<Rightarrow> 'a list \<Rightarrow> nat \<Rightarrow> nat \<Rightarrow> nat \<Rightarrow> nat \<Rightarrow> match" where
  "find_longest_match a b alo ahi blo bhi =
     extend_fwd a b ahi bhi True
       (extend_back a b alo blo True
          (extend_fwd a b ahi bhi False
             (extend_back a b alo blo False (flm_scan a b alo ahi blo bhi))))"

subsection \<open>The best match lies inside the window of \<open>a\<close>\<close>

text \<open>
  \<^verbatim>\<open>get_matching_blocks\<close> terminates because every match that is not empty lies
  inside the window it was searched in; this is shown here, before the loop is defined.
\<close>

definition within_a :: "nat \<Rightarrow> nat \<Rightarrow> match \<Rightarrow> bool" where
  "within_a alo ahi m = (case m of (i, j, k) \<Rightarrow> alo \<le> i \<and> i + k \<le> ahi)"

definition within_b :: "nat \<Rightarrow> nat \<Rightarrow> match \<Rightarrow> bool" where
  "within_b blo bhi m = (case m of (i, j, k) \<Rightarrow> blo \<le> j \<and> j + k \<le> bhi)"

lemma j2lenget_le: "\<forall>j v. j2len j = Some v \<longrightarrow> v \<le> n \<Longrightarrow> j2lenget j2len j \<le> n"
  by (simp add: j2lenget_def split: option.splits)

lemma flm_inner_a:
  assumes "\<forall>j v. j2len j = Some v \<longrightarrow> v \<le> i - alo" and "alo \<le> i"
    and "flm_inner i blo bhi j2len js (newj2len, besti, bestj, bestsize) = (nj, bi, bj, bs)"
    and "alo \<le> besti" and "besti + bestsize \<le> i + 1"
    and "\<forall>j v. newj2len j = Some v \<longrightarrow> v \<le> i + 1 - alo"
  shows "alo \<le> bi \<and> bi + bs \<le> i + 1 \<and> (\<forall>j v. nj j = Some v \<longrightarrow> v \<le> i + 1 - alo)"
  using assms(3-)
proof (induction js arbitrary: newj2len besti bestj bestsize)
  case Nil
  then show ?case by simp
next
  case (Cons j js)
  let ?k = "j2lenget j2len j + 1"
  have k: "?k \<le> i + 1 - alo"
    using j2lenget_le [OF assms(1), of j] assms(2) by simp
  show ?case
  proof (cases "j < blo")
    case True
    with Cons show ?thesis by simp
  next
    case lo: False
    show ?thesis
    proof (cases "bhi \<le> j")
      case True
      with lo Cons.prems show ?thesis by simp
    next
      case hi: False
      have upd: "\<forall>j' v. (newj2len(j \<mapsto> ?k)) j' = Some v \<longrightarrow> v \<le> i + 1 - alo"
        using Cons.prems(4) k by auto
      show ?thesis
      proof (cases "bestsize < ?k")
        case True
        with lo hi Cons.prems(1)
        have run: "flm_inner i blo bhi j2len js (newj2len(j \<mapsto> ?k), i + 1 - ?k, j + 1 - ?k, ?k)
                     = (nj, bi, bj, bs)"
          by (simp add: Let_def)
        have "alo \<le> i + 1 - ?k" and "i + 1 - ?k + ?k \<le> i + 1"
          using k assms(2) by simp_all
        from Cons.IH [OF run this upd] show ?thesis .
      next
        case False
        with lo hi Cons.prems(1)
        have run: "flm_inner i blo bhi j2len js (newj2len(j \<mapsto> ?k), besti, bestj, bestsize)
                     = (nj, bi, bj, bs)"
          by (simp add: Let_def)
        from Cons.IH [OF run Cons.prems(2,3) upd] show ?thesis .
      qed
    qed
  qed
qed

lemma flm_fold_a:
  "alo \<le> n \<Longrightarrow>
   fold (flm_row a b blo bhi) [alo..<n] (Map.empty, alo, blo, 0) = (j2len, bi, bj, bs) \<Longrightarrow>
   alo \<le> bi \<and> bi + bs \<le> n \<and> (\<forall>j v. j2len j = Some v \<longrightarrow> v \<le> n - alo)"
proof (induction n arbitrary: j2len bi bj bs)
  case 0
  then show ?case by auto
next
  case (Suc n)
  show ?case
  proof (cases "alo = Suc n")
    case True
    with Suc.prems show ?thesis by auto
  next
    case False
    with Suc.prems have le: "alo \<le> n" by simp
    obtain j0 bi0 bj0 bs0 where
      st: "fold (flm_row a b blo bhi) [alo..<n] (Map.empty, alo, blo, 0) = (j0, bi0, bj0, bs0)"
      by (metis prod_cases4)
    from Suc.IH [OF le st]
    have ih: "alo \<le> bi0" "bi0 + bs0 \<le> n" "\<forall>j v. j0 j = Some v \<longrightarrow> v \<le> n - alo"
      by simp_all
    from Suc.prems(2) le st
    have run: "flm_inner n blo bhi j0 (b2j b (a ! n)) (Map.empty, bi0, bj0, bs0) = (j2len, bi, bj, bs)"
      by simp
    have "alo \<le> bi \<and> bi + bs \<le> n + 1 \<and> (\<forall>j v. j2len j = Some v \<longrightarrow> v \<le> n + 1 - alo)"
      using ih(2) by (intro flm_inner_a [OF ih(3) le run ih(1)]) simp_all
    then show ?thesis by simp
  qed
qed

lemma extend_back_bounds:
  "extend_back a b alo blo junk (besti, bestj, bestsize) = (bi, bj, bs) \<Longrightarrow>
   bi + bs = besti + bestsize \<and> bj + bs = bestj + bestsize \<and> bi \<le> besti \<and>
   (alo \<le> besti \<longrightarrow> alo \<le> bi) \<and> (blo \<le> bestj \<longrightarrow> blo \<le> bj)"
proof (induction a b alo blo junk "(besti, bestj, bestsize)" arbitrary: besti bestj bestsize
    rule: extend_back.induct)
  case (1 a b alo blo junk besti bestj bestsize)
  show ?case
  proof (cases "alo < besti \<and> blo < bestj \<and> isbjunk b (b ! (bestj - 1)) = junk \<and>
         a ! (besti - 1) = b ! (bestj - 1)")
    case True
    with "1.prems" have "extend_back a b alo blo junk (besti - 1, bestj - 1, bestsize + 1) = (bi, bj, bs)"
      by (simp add: extend_back.simps [of a b alo blo junk besti])
    from "1.hyps" [OF True this] True show ?thesis by auto
  next
    case False
    with "1.prems" show ?thesis
      by (auto simp: extend_back.simps [of a b alo blo junk besti])
  qed
qed

lemma extend_fwd_bounds:
  "extend_fwd a b ahi bhi junk (besti, bestj, bestsize) = (bi, bj, bs) \<Longrightarrow>
   bi = besti \<and> bj = bestj \<and> bestsize \<le> bs \<and>
   (besti + bestsize \<le> ahi \<longrightarrow> bi + bs \<le> ahi) \<and> (bestj + bestsize \<le> bhi \<longrightarrow> bj + bs \<le> bhi) \<and>
   (ahi \<le> besti + bestsize \<longrightarrow> bs = bestsize)"
proof (induction a b ahi bhi junk "(besti, bestj, bestsize)" arbitrary: besti bestj bestsize
    rule: extend_fwd.induct)
  case (1 a b ahi bhi junk besti bestj bestsize)
  show ?case
  proof (cases "besti + bestsize < ahi \<and> bestj + bestsize < bhi \<and>
         isbjunk b (b ! (bestj + bestsize)) = junk \<and>
         a ! (besti + bestsize) = b ! (bestj + bestsize)")
    case True
    with "1.prems" have "extend_fwd a b ahi bhi junk (besti, bestj, bestsize + 1) = (bi, bj, bs)"
      by (simp add: extend_fwd.simps [of a b ahi bhi junk besti])
    from "1.hyps" [OF True this] True show ?thesis by auto
  next
    case False
    with "1.prems" show ?thesis
      by (auto simp: extend_fwd.simps [of a b ahi bhi junk besti])
  qed
qed

lemma flm_scan_within_a: "alo \<le> ahi \<Longrightarrow> within_a alo ahi (flm_scan a b alo ahi blo bhi)"
proof -
  assume le: "alo \<le> ahi"
  obtain j2len bi bj bs where
    st: "fold (flm_row a b blo bhi) [alo..<ahi] (Map.empty, alo, blo, 0) = (j2len, bi, bj, bs)"
    by (metis prod_cases4)
  from flm_fold_a [OF le st] st show ?thesis
    by (simp add: flm_scan_def within_a_def)
qed

lemma extend_back_within_a:
  "within_a alo ahi m \<Longrightarrow> within_a alo ahi (extend_back a b alo blo junk m)"
proof -
  assume w: "within_a alo ahi m"
  obtain besti bestj bestsize where m: "m = (besti, bestj, bestsize)" by (metis prod_cases3)
  obtain bi bj bs where r: "extend_back a b alo blo junk (besti, bestj, bestsize) = (bi, bj, bs)"
    by (metis prod_cases3)
  from extend_back_bounds [OF r] w m r show ?thesis
    by (simp add: within_a_def)
qed

lemma extend_fwd_within_a:
  "within_a alo ahi m \<Longrightarrow> within_a alo ahi (extend_fwd a b ahi bhi junk m)"
proof -
  assume w: "within_a alo ahi m"
  obtain besti bestj bestsize where m: "m = (besti, bestj, bestsize)" by (metis prod_cases3)
  obtain bi bj bs where r: "extend_fwd a b ahi bhi junk (besti, bestj, bestsize) = (bi, bj, bs)"
    by (metis prod_cases3)
  from extend_fwd_bounds [OF r] w m r show ?thesis
    by (simp add: within_a_def)
qed

lemma find_longest_match_within_a:
  "alo \<le> ahi \<Longrightarrow> within_a alo ahi (find_longest_match a b alo ahi blo bhi)"
  unfolding find_longest_match_def
  by (intro extend_fwd_within_a extend_back_within_a flm_scan_within_a)

lemma find_longest_match_empty_window:
  "ahi \<le> alo \<Longrightarrow> find_longest_match a b alo ahi blo bhi = (alo, blo, 0)"
  by (simp add: find_longest_match_def flm_scan_def
      extend_back.simps [of a b alo blo _ alo blo 0] extend_fwd.simps [of a b ahi bhi _ alo blo 0])

lemma find_longest_match_a:
  assumes "find_longest_match a b alo ahi blo bhi = (i, j, k)" and "k \<noteq> 0"
  shows "alo \<le> i \<and> i + k \<le> ahi"
proof (cases "alo \<le> ahi")
  case True
  from find_longest_match_within_a [OF this, of a b blo bhi] assms(1) show ?thesis
    by (simp add: within_a_def)
next
  case False
  then have "find_longest_match a b alo ahi blo bhi = (alo, blo, 0)"
    by (simp add: find_longest_match_empty_window)
  with assms show ?thesis by simp
qed

subsection \<open>\<^verbatim>\<open>get_matching_blocks\<close> and \<^verbatim>\<open>ratio\<close>\<close>

text \<open>
  The work list of \<^verbatim>\<open>get_matching_blocks\<close>. \<^verbatim>\<open>queue.pop()\<close> takes the window
  appended last, so the list is kept with that window at its head: the window to the
  right of a match is searched before the one to its left.
  \<^verbatim>\<open>
  while queue:
      alo, ahi, blo, bhi = queue.pop()
      i, j, k = x = self.find_longest_match(alo, ahi, blo, bhi)
      if k:
          matching_blocks.append(x)
          if alo < i and blo < j: queue.append((alo, i, blo, j))
          if i+k < ahi and j+k < bhi: queue.append((i+k, ahi, j+k, bhi))
  \<close>
\<close>

function gmb_loop ::
  "'a list \<Rightarrow> 'a list \<Rightarrow> (nat \<times> nat \<times> nat \<times> nat) list \<Rightarrow> match list \<Rightarrow> match list"
where
  "gmb_loop a b [] matching_blocks = matching_blocks"
| "gmb_loop a b ((alo, ahi, blo, bhi) # queue) matching_blocks =
     (case find_longest_match a b alo ahi blo bhi of
        (i, j, k) \<Rightarrow>
          if k \<noteq> 0
          then gmb_loop a b
                 ((if i + k < ahi \<and> j + k < bhi then [(i + k, ahi, j + k, bhi)] else []) @
                  (if alo < i \<and> blo < j then [(alo, i, blo, j)] else []) @ queue)
                 (matching_blocks @ [(i, j, k)])
          else gmb_loop a b queue matching_blocks)"
  by pat_completeness auto
termination
  apply (relation "measure (\<lambda>(a, b, queue, mb).
         sum_list (map (\<lambda>(alo, ahi, blo, bhi). 2 * (ahi - alo) + 1) queue))")
    apply simp
  subgoal for a b alo ahi blo bhi queue mb i y j k
    using find_longest_match_a [of a b alo ahi blo bhi i j k] by auto
  subgoal by simp
  done

declare gmb_loop.simps [simp del]

text \<open>
  The blocks are sorted and adjacent ones are merged:
  \<^verbatim>\<open>
  i1 = j1 = k1 = 0
  for i2, j2, k2 in matching_blocks:
      if i1 + k1 == i2 and j1 + k1 == j2: k1 += k2
      else:
          if k1: non_adjacent.append((i1, j1, k1))
          i1, j1, k1 = i2, j2, k2
  if k1: non_adjacent.append((i1, j1, k1))
  non_adjacent.append((la, lb, 0))
  \<close>
\<close>

fun collapse :: "match \<Rightarrow> match list \<Rightarrow> match list \<Rightarrow> match list" where
  "collapse (i1, j1, k1) non_adjacent [] =
     (if k1 \<noteq> 0 then non_adjacent @ [(i1, j1, k1)] else non_adjacent)"
| "collapse (i1, j1, k1) non_adjacent ((i2, j2, k2) # rest) =
     (if i1 + k1 = i2 \<and> j1 + k1 = j2 then collapse (i1, j1, k1 + k2) non_adjacent rest
      else collapse (i2, j2, k2)
             (if k1 \<noteq> 0 then non_adjacent @ [(i1, j1, k1)] else non_adjacent) rest)"

definition get_matching_blocks :: "'a list \<Rightarrow> 'a list \<Rightarrow> match list" where
  "get_matching_blocks a b =
     (let la = length a; lb = length b;
          matching_blocks = sort (gmb_loop a b [(0, la, 0, lb)] [])
      in collapse (0, 0, 0) [] matching_blocks @ [(la, lb, 0)])"

text \<open>
  \<^verbatim>\<open>_calculate_ratio\<close> and \<^verbatim>\<open>ratio\<close>. The floating-point quotient
  \<^verbatim>\<open>2.0 * matches / length\<close> is taken as the rational number it approximates.
\<close>

definition calculate_ratio :: "nat \<Rightarrow> nat \<Rightarrow> rat" where
  "calculate_ratio matches len = (if len \<noteq> 0 then 2 * of_nat matches / of_nat len else 1)"

definition ratio :: "'a list \<Rightarrow> 'a list \<Rightarrow> rat" where
  "ratio a b =
     calculate_ratio (sum_list (map (\<lambda>(i, j, k). k) (get_matching_blocks a b)))
       (length a + length b)"

section \<open>\<^verbatim>\<open>calculate_similarity\<close>\<close>

text \<open>
  \<^verbatim>\<open>round(x, ndigits)\<close> on rationals: the nearest multiple of \<open>10 ^ -ndigits\<close>, a
  tie going to the even one.
\<close>

definition py_round :: "rat \<Rightarrow> nat \<Rightarrow> rat" where
  "py_round x ndigits =
     (let y = x * 10 ^ ndigits; f = \<lfloor>y\<rfloor>; d = y - of_int f;
          n = (if d < 1 / 2 then f else if 1 / 2 < d then f + 1
               else if even f then f else f + 1)
      in of_int n / 10 ^ ndigits)"

text \<open>
  What opening and reading a path gives: the lines of the file, or the exception raised
  by \<^verbatim>\<open>open\<close> or \<^verbatim>\<open>readlines\<close>. The file system is a parameter of the model.
\<close>

datatype read_outcome = Content "pystr list" | Raises pyerror

type_synonym filesystem = "string \<Rightarrow> read_outcome"

record similarity_result =
  line_similarity :: rat
  instruction_similarity :: rat
  overall_similarity :: rat

text \<open>The body of the \<^verbatim>\<open>try\<close>: the first file is read before the second is opened.\<close>

definition read_files :: "filesystem \<Rightarrow> string \<Rightarrow> string \<Rightarrow> pyerror + pystr list \<times> pystr list" where
  "read_files fs file1_path file2_path =
     (case fs file1_path of
        Raises e \<Rightarrow> Inl e
      | Content lines1 \<Rightarrow>
          (case fs file2_path of
             Raises e \<Rightarrow> Inl e
           | Content lines2 \<Rightarrow> Inr (lines1, lines2)))"

text \<open>\<^verbatim>\<open>[normalize_assembly_line(line) for line in lines]\<close>\<close>

fun normalize_all :: "pystr list \<Rightarrow> pyerror + pystr list" where
  "normalize_all [] = Inr []"
| "normalize_all (line # lines) =
     (case normalize_assembly_line line of
        Inl e \<Rightarrow> Inl e
      | Inr n \<Rightarrow> (case normalize_all lines of Inl e \<Rightarrow> Inl e | Inr ns \<Rightarrow> Inr (n # ns)))"

text \<open>The part of \<^verbatim>\<open>calculate_similarity\<close> after the \<^verbatim>\<open>try\<close> statement.\<close>

definition similarity_of_lines :: "pystr list \<Rightarrow> pystr list \<Rightarrow> pyerror + similarity_result" where
  "similarity_of_lines lines1 lines2 =
     (case normalize_all lines1 of Inl e \<Rightarrow> Inl e | Inr all1 \<Rightarrow>
      case normalize_all lines2 of Inl e \<Rightarrow> Inl e | Inr all2 \<Rightarrow>
      let normalized_lines1 = filter (\<lambda>line. line \<noteq> []) all1;
          normalized_lines2 = filter (\<lambda>line. line \<noteq> []) all2;
          line_sim = ratio normalized_lines1 normalized_lines2
      in
      case extract_instructions lines1 of Inl e \<Rightarrow> Inl e | Inr instructions1 \<Rightarrow>
      case extract_instructions lines2 of Inl e \<Rightarrow> Inl e | Inr instructions2 \<Rightarrow>
      let instruction_sim =
            (if instructions1 \<noteq> [] \<or> instructions2 \<noteq> []
             then ratio instructions1 instructions2 else 0);
          overall_sim = line_sim * (6 / 10) + instruction_sim * (4 / 10)
      in Inr \<lparr>line_similarity = py_round line_sim 4,
               instruction_similarity = py_round instruction_sim 4,
               overall_similarity = py_round overall_sim 4\<rparr>)"

definition zero_result :: similarity_result where
  "zero_result = \<lparr>line_similarity = 0, instruction_similarity = 0, overall_similarity = 0\<rparr>"

text \<open>\<^verbatim>\<open>except FileNotFoundError\<close> is the only handler; any other exception propagates.\<close>

definition calculate_similarity :: "filesystem \<Rightarrow> string \<Rightarrow> string \<Rightarrow> pyerror + similarity_result" where
  "calculate_similarity fs file1_path file2_path =
     (case read_files fs file1_path file2_path of
        Inl e \<Rightarrow> if e = FileNotFoundError then Inr zero_result else Inl e
      | Inr (lines1, lines2) \<Rightarrow> similarity_of_lines lines1 lines2)"

text \<open>
  The full-precision ratios in the specification's wording: the ratio of the non-empty
  normalised lines, and the ratio of the instruction tokens, which is \<open>0\<close> when both
  token sequences are empty.
\<close>

definition norm_lines :: "pystr list \<Rightarrow> pystr list" where
  "norm_lines lines = filter (\<lambda>line. line \<noteq> []) (map normalize_spec lines)"

definition line_ratio :: "pystr list \<Rightarrow> pystr list \<Rightarrow> rat" where
  "line_ratio lines1 lines2 = ratio (norm_lines lines1) (norm_lines lines2)"

definition inst_ratio :: "pystr list \<Rightarrow> pystr list \<Rightarrow> rat" where
  "inst_ratio lines1 lines2 =
     (if extract_spec lines1 = [] \<and> extract_spec lines2 = [] then 0
      else ratio (extract_spec lines1) (extract_spec lines2))"

text \<open>
  A small file system on which the theorems below are instantiated: the lines of ten
  files as \<^verbatim>\<open>readlines\<close> returns them, one path that cannot be read, and every other
  path missing.
\<close>

definition generated_s :: "pystr list" where
  "generated_s = [u ''mov eax, 1  # load\<newline>'', u ''ret\<newline>'']"

definition unoptimized_s :: "pystr list" where
  "unoptimized_s = [u ''mov eax, 1\<newline>'', u ''ret\<newline>'']"

definition edited_s :: "pystr list" where
  "edited_s = [u ''   mov eax, 1 ; one\<newline>'', u ''ret  # done\<newline>'']"

definition first_s :: "pystr list" where
  "first_s = [u ''nop\<newline>'', u ''ret\<newline>'', u ''cld\<newline>'', u ''hlt\<newline>'']"

definition second_s :: "pystr list" where
  "second_s = [u ''cld\<newline>'', u ''ret\<newline>'', u ''hlt\<newline>'', u ''nop\<newline>'']"

definition comment_s :: "pystr list" where
  "comment_s = [u ''# no code\<newline>'', u ''\<newline>'']"

definition labels1_s :: "pystr list" where
  "labels1_s = [u ''# data\<newline>'', u ''\<newline>'', u ''foo:\<newline>'', u ''.text\<newline>'']"

definition labels2_s :: "pystr list" where
  "labels2_s = [u ''; data\<newline>'', u ''bar:\<newline>'', u ''.data\<newline>'']"

definition three_s :: "pystr list" where
  "three_s = [u ''mov a\<newline>'', u ''add b\<newline>'', u ''ret x\<newline>'']"

definition four_s :: "pystr list" where
  "four_s = [u ''mov c\<newline>'', u ''add d\<newline>'', u ''ret y\<newline>'', u ''nop\<newline>'']"

definition sample_fs :: filesystem where
  "sample_fs path =
     (if path = ''generated.s'' then Content generated_s
      else if path = ''unoptimized.s'' then Content unoptimized_s
      else if path = ''edited.s'' then Content edited_s
      else if path = ''first.s'' then Content first_s
      else if path = ''second.s'' then Content second_s
      else if path = ''comment.s'' then Content comment_s
      else if path = ''labels1.s'' then Content labels1_s
      else if path = ''labels2.s'' then Content labels2_s
      else if path = ''three.s'' then Content three_s
      else if path = ''four.s'' then Content four_s
      else if path = ''locked.s'' then Raises PermissionError
      else Raises FileNotFoundError)"

section \<open>Properties of normalisation\<close>

lemma py_index_takeWhile:
  "c \<in> set xs \<Longrightarrow> py_index xs c = Some (length (takeWhile (\<lambda>x. x \<noteq> c) xs))"
  by (induction xs) auto

lemma takeWhile_absent: "c \<notin> set xs \<Longrightarrow> takeWhile (\<lambda>x. x \<noteq> c) xs = xs"
  by (induction xs) auto

lemma cut_at_truncate: "cut_at c line = Inr (truncate_at c line)"
proof (cases "c \<in> set line")
  case True
  then show ?thesis
    by (simp add: cut_at_def truncate_at_def py_index_takeWhile takeWhile_eq_take [symmetric])
next
  case False
  then show ?thesis
    by (simp add: cut_at_def truncate_at_def takeWhile_absent)
qed

lemma normalize_assembly_line_Inr: "normalize_assembly_line line = Inr (normalize_spec line)"
  by (simp add: normalize_assembly_line_def normalize_spec_def cut_at_truncate)

lemma rstrip_Cons:
  "rstrip (x # xs) = (if isspace x \<and> rstrip xs = [] then [] else x # rstrip xs)"
  by (auto simp: rstrip_def dropWhile_append dropWhile_eq_Nil_conv)

lemma lstrip_head: "lstrip s = [] \<or> \<not> isspace (hd (lstrip s))"
  unfolding lstrip_def by (metis hd_dropWhile)

lemma rstrip_Nil: "rstrip [] = []"
  by (simp add: rstrip_def)

lemma lstrip_rstrip: "t = [] \<or> \<not> isspace (hd t) \<Longrightarrow> lstrip (rstrip t) = rstrip t"
  by (cases t) (auto simp: rstrip_Cons rstrip_Nil lstrip_def)

lemma rstrip_idem: "rstrip (rstrip t) = rstrip t"
  by (simp add: rstrip_def)

lemma strip_idem: "strip (strip s) = strip s"
  by (simp add: strip_def lstrip_rstrip [OF lstrip_head] rstrip_idem)

lemma set_strip: "set (strip s) \<subseteq> set s"
  unfolding strip_def rstrip_def lstrip_def
  by (metis set_dropWhileD set_rev subsetI)

lemma strip_head: "strip s \<noteq> [] \<Longrightarrow> \<not> isspace (hd (strip s))"
  using lstrip_head [of s] unfolding strip_def
  by (cases "lstrip s") (auto simp: rstrip_Cons rstrip_Nil split: if_splits)

lemma strip_Nil: "strip [] = []"
  by (simp add: strip_def lstrip_def rstrip_def)

lemma normalize_spec_no_marker:
  "hash \<notin> set (normalize_spec s)" "semicolon \<notin> set (normalize_spec s)"
proof -
  have "set (normalize_spec s) \<subseteq> set (truncate_at semicolon (truncate_at hash s))"
    by (simp add: normalize_spec_def set_strip)
  moreover have "hash \<notin> set (truncate_at semicolon (truncate_at hash s))"
    unfolding truncate_at_def by (metis set_takeWhileD)
  moreover have "semicolon \<notin> set (truncate_at semicolon (truncate_at hash s))"
    unfolding truncate_at_def by (metis set_takeWhileD)
  ultimately show "hash \<notin> set (normalize_spec s)" "semicolon \<notin> set (normalize_spec s)"
    by auto
qed

lemma normalize_spec_strip: "strip (normalize_spec s) = normalize_spec s"
  by (simp add: normalize_spec_def strip_idem)

lemma normalize_spec_idem: "normalize_spec (normalize_spec s) = normalize_spec s"
proof -
  have "truncate_at semicolon (truncate_at hash (normalize_spec s)) = normalize_spec s"
    by (simp add: truncate_at_def takeWhile_absent normalize_spec_no_marker)
  then show ?thesis
    using normalize_spec_strip [of s] by (simp add: normalize_spec_def [of "normalize_spec s"])
qed

section \<open>Properties of instruction extraction\<close>

lemma split_first_token:
  "s \<noteq> [] \<Longrightarrow> \<not> isspace (hd s) \<Longrightarrow>
   split s = first_token s # split (dropWhile (\<lambda>c. \<not> isspace c) s)"
proof -
  assume "s \<noteq> []" and "\<not> isspace (hd s)"
  then have "dropWhile isspace s = s"
    by (cases s) auto
  with \<open>s \<noteq> []\<close> show ?thesis
    by (subst split.simps) (simp add: first_token_def)
qed

lemma extract_loop_spec: "extract_loop lines acc = Inr (acc @ extract_spec lines)"
proof (induction lines arbitrary: acc)
  case Nil
  then show ?case by (simp add: extract_spec_def)
next
  case (Cons line lines)
  let ?n = "normalize_spec line"
  show ?case
  proof (cases "is_instruction_line ?n")
    case True
    then have "?n \<noteq> []" and "\<not> isspace (hd ?n)"
      using strip_head [of "truncate_at semicolon (truncate_at hash line)"]
      by (simp_all add: is_instruction_line_def normalize_spec_def)
    from split_first_token [OF this] True show ?thesis
      by (simp add: normalize_assembly_line_Inr Cons.IH extract_spec_def is_instruction_line_def)
  next
    case False
    then show ?thesis
      by (auto simp: normalize_assembly_line_Inr Cons.IH extract_spec_def is_instruction_line_def)
  qed
qed

section \<open>A sequence compared with itself\<close>

text \<open>
  When \<open>a\<close> is compared with itself, the scan of \<^verbatim>\<open>find_longest_match\<close> only ever
  improves its best match on the diagonal, also when \<^verbatim>\<open>autojunk\<close> has removed popular
  elements: \<open>run_len a i\<close> is the length of the run of unpopular elements that ends at
  position \<open>i\<close>, and no cell of row \<open>i\<close> holds a longer match than the diagonal cell.
  The two extension loops then widen the diagonal match to the whole sequence.
\<close>

fun run_len :: "'a list \<Rightarrow> nat \<Rightarrow> nat" where
  "run_len a 0 = (if bpopular a (a ! 0) then 0 else 1)"
| "run_len a (Suc i) = (if bpopular a (a ! Suc i) then 0 else Suc (run_len a i))"

definition run_before :: "'a list \<Rightarrow> nat \<Rightarrow> nat" where
  "run_before a i = (case i of 0 \<Rightarrow> 0 | Suc i' \<Rightarrow> run_len a i')"

lemma run_len_unpopular: "\<not> bpopular a (a ! i) \<Longrightarrow> run_len a i = Suc (run_before a i)"
  by (cases i) (simp_all add: run_before_def)

lemma run_len_popular: "bpopular a (a ! i) \<Longrightarrow> run_len a i = 0"
  by (cases i) simp_all

lemma j2lenget_run:
  assumes "\<forall>j v. j2len j = Some v \<longrightarrow> v \<le> p \<and> v \<le> run_len a j"
  shows "j2lenget j2len j \<le> p" and "j2lenget j2len j \<le> run_before a j"
  using assms by (auto simp: j2lenget_def run_before_def split: option.splits nat.splits)

lemma diag_inner:
  assumes J2: "\<forall>j v. j2len j = Some v \<longrightarrow> v \<le> run_before a i \<and> v \<le> run_len a j"
    and J3: "j2lenget j2len i = run_before a i"
    and np: "\<not> bpopular a (a ! i)"
  shows "sorted js \<Longrightarrow> \<forall>j\<in>set js. j < n \<and> a ! j = a ! i \<Longrightarrow>
    besti = bestj \<Longrightarrow> \<forall>i'<i. run_len a i' \<le> bestsize \<Longrightarrow>
    i \<in> set js \<or> (run_len a i \<le> bestsize \<and> newj2len i = Some (run_len a i)) \<Longrightarrow>
    \<forall>j v. newj2len j = Some v \<longrightarrow> v \<le> run_len a i \<and> v \<le> run_len a j \<Longrightarrow>
    flm_inner i 0 n j2len js (newj2len, besti, bestj, bestsize) = (nj, bi, bj, bs) \<Longrightarrow>
    bi = bj \<and> (\<forall>i'\<le>i. run_len a i' \<le> bs) \<and> nj i = Some (run_len a i) \<and>
    (\<forall>j v. nj j = Some v \<longrightarrow> v \<le> run_len a i \<and> v \<le> run_len a j)"
proof (induction js arbitrary: newj2len besti bestj bestsize)
  case Nil
  then show ?case by (auto simp: le_less)
next
  case (Cons j js)
  let ?k = "j2lenget j2len j + 1"
  have ri: "run_len a i = Suc (run_before a i)"
    using np by (rule run_len_unpopular)
  from Cons.prems(2) have jn: "j < n" and aj: "a ! j = a ! i" by simp_all
  from aj np have "\<not> bpopular a (a ! j)" by simp
  then have rj: "run_len a j = Suc (run_before a j)" by (rule run_len_unpopular)
  have k1: "?k \<le> run_len a i" and k2: "?k \<le> run_len a j"
    using j2lenget_run [OF J2, of j] ri rj by simp_all
  have ki: "j = i \<Longrightarrow> ?k = run_len a i"
    using J3 ri by simp
  have sorted: "sorted js" and later: "\<forall>j'\<in>set js. j \<le> j'"
    using Cons.prems(1) by simp_all
  have rest: "\<forall>j\<in>set js. j < n \<and> a ! j = a ! i"
    using Cons.prems(2) by simp
  have upd: "\<forall>j' v. (newj2len(j \<mapsto> ?k)) j' = Some v \<longrightarrow> v \<le> run_len a i \<and> v \<le> run_len a j'"
    using Cons.prems(6) k1 k2 by auto
  show ?case
  proof (cases "bestsize < ?k")
    case True
    have "j = i"
    proof (rule ccontr)
      assume ne: "j \<noteq> i"
      show False
      proof (cases "j < i")
        case True
        with Cons.prems(4) have "run_len a j \<le> bestsize" by simp
        with k2 \<open>bestsize < ?k\<close> show False by simp
      next
        case False
        with ne have "i < j" by simp
        with later have "i \<notin> set (j # js)" by auto
        with Cons.prems(5) have "run_len a i \<le> bestsize" by simp
        with k1 \<open>bestsize < ?k\<close> show False by simp
      qed
    qed
    from True jn Cons.prems(7)
    have run: "flm_inner i 0 n j2len js (newj2len(j \<mapsto> ?k), i + 1 - ?k, j + 1 - ?k, ?k)
                 = (nj, bi, bj, bs)"
      by (simp add: Let_def)
    have a1: "i + 1 - ?k = j + 1 - ?k" using \<open>j = i\<close> by simp
    have a2: "\<forall>i'<i. run_len a i' \<le> ?k"
      using Cons.prems(4) True by (meson le_trans less_imp_le)
    have a3: "i \<in> set js \<or> (run_len a i \<le> ?k \<and> (newj2len(j \<mapsto> ?k)) i = Some (run_len a i))"
      using \<open>j = i\<close> ki by simp
    from Cons.IH [OF sorted rest a1 a2 a3 upd run] show ?thesis .
  next
    case False
    with jn Cons.prems(7)
    have run: "flm_inner i 0 n j2len js (newj2len(j \<mapsto> ?k), besti, bestj, bestsize)
                 = (nj, bi, bj, bs)"
      by (simp add: Let_def)
    have a3: "i \<in> set js \<or>
              (run_len a i \<le> bestsize \<and> (newj2len(j \<mapsto> ?k)) i = Some (run_len a i))"
      using Cons.prems(5) False ki by auto
    from Cons.IH [OF sorted rest Cons.prems(3) Cons.prems(4) a3 upd run] show ?thesis .
  qed
qed

lemma indices_of_props:
  "sorted (indices_of a x)" "\<forall>j\<in>set (indices_of a x). j < length a \<and> a ! j = x"
  "i < length a \<Longrightarrow> i \<in> set (indices_of a (a ! i))"
  by (simp_all add: indices_of_def sorted_wrt_filter)

text \<open>The state after the rows below \<open>m\<close> when a sequence is compared with itself.\<close>

definition diag_inv :: "'a list \<Rightarrow> nat \<Rightarrow> (nat \<rightharpoonup> nat) \<times> match \<Rightarrow> bool" where
  "diag_inv a m st =
     (case st of (j2len, bi, bj, bs) \<Rightarrow>
        bi = bj \<and> (\<forall>i'<m. run_len a i' \<le> bs) \<and>
        (\<forall>j v. j2len j = Some v \<longrightarrow> v \<le> run_before a m \<and> v \<le> run_len a j) \<and>
        j2lenget j2len m = run_before a m)"

lemma diag_row:
  assumes "diag_inv a m st" and "m < length a"
  shows "diag_inv a (Suc m) (flm_row a a 0 (length a) m st)"
proof -
  obtain j2len bi bj bs where st: "st = (j2len, bi, bj, bs)" by (metis prod_cases4)
  from assms(1) st have inv: "bi = bj" "\<forall>i'<m. run_len a i' \<le> bs"
    "\<forall>j v. j2len j = Some v \<longrightarrow> v \<le> run_before a m \<and> v \<le> run_len a j"
    "j2lenget j2len m = run_before a m"
    by (simp_all add: diag_inv_def)
  show ?thesis
  proof (cases "bpopular a (a ! m)")
    case True
    then have "run_len a m = 0" by (rule run_len_popular)
    with True inv st show ?thesis
      by (auto simp: diag_inv_def b2j_def j2lenget_def run_before_def less_Suc_eq)
  next
    case False
    obtain nj bi' bj' bs' where
      run: "flm_inner m 0 (length a) j2len (indices_of a (a ! m)) (Map.empty, bi, bj, bs)
              = (nj, bi', bj', bs')"
      by (metis prod_cases4)
    have "bi' = bj' \<and> (\<forall>i'\<le>m. run_len a i' \<le> bs') \<and> nj m = Some (run_len a m) \<and>
      (\<forall>j v. nj j = Some v \<longrightarrow> v \<le> run_len a m \<and> v \<le> run_len a j)"
      using indices_of_props(3) [OF assms(2)]
      by (intro diag_inner [OF inv(3) inv(4) False indices_of_props(1) indices_of_props(2)
            inv(1) inv(2) _ _ run]) simp_all
    with False st run show ?thesis
      by (auto simp: diag_inv_def b2j_def j2lenget_def run_before_def less_Suc_eq_le)
  qed
qed

lemma diag_fold:
  "m \<le> length a \<Longrightarrow>
   diag_inv a m (fold (flm_row a a 0 (length a)) [0..<m] (Map.empty, 0, 0, 0))"
proof (induction m)
  case 0
  show ?case by (simp add: diag_inv_def j2lenget_def run_before_def)
next
  case (Suc m)
  then show ?case by (simp add: diag_row)
qed

lemma flm_scan_diag:
  "\<exists>i k. flm_scan a a 0 (length a) 0 (length a) = (i, i, k) \<and> i + k \<le> length a"
proof -
  obtain j2len bi bj bs where
    st: "fold (flm_row a a 0 (length a)) [0..<length a] (Map.empty, 0, 0, 0) = (j2len, bi, bj, bs)"
    by (metis prod_cases4)
  from diag_fold [of "length a" a] st have "bi = bj" by (simp add: diag_inv_def)
  moreover from flm_fold_a [OF _ st] have "bi + bs \<le> length a" by simp
  ultimately show ?thesis using st by (simp add: flm_scan_def)
qed

lemma extend_back_diag: "extend_back a a 0 0 False (i, i, k) = (0, 0, i + k)"
proof (induction i arbitrary: k)
  case 0
  show ?case by (simp add: extend_back.simps [of a a 0 0 False 0])
next
  case (Suc i)
  have "extend_back a a 0 0 False (Suc i, Suc i, k) = extend_back a a 0 0 False (i, i, k + 1)"
    by (simp add: extend_back.simps [of a a 0 0 False "Suc i"] isbjunk_def)
  with Suc show ?case by simp
qed

lemma extend_fwd_diag:
  "k \<le> n \<Longrightarrow> extend_fwd a a n n False (0, 0, k) = (0, 0, n)"
proof (induction "n - k" arbitrary: k)
  case 0
  then have "k = n" by simp
  then show ?case by (simp add: extend_fwd.simps [of a a n n False 0 0 n])
next
  case (Suc d)
  then have "extend_fwd a a n n False (0, 0, k) = extend_fwd a a n n False (0, 0, k + 1)"
    by (simp add: extend_fwd.simps [of a a n n False 0 0 k] isbjunk_def)
  with Suc show ?case by simp
qed

lemma find_longest_match_self:
  "find_longest_match a a 0 (length a) 0 (length a) = (0, 0, length a)"
proof -
  obtain i k where s: "flm_scan a a 0 (length a) 0 (length a) = (i, i, k)"
    and le: "i + k \<le> length a"
    using flm_scan_diag by blast
  show ?thesis
    by (simp add: find_longest_match_def s extend_back_diag extend_fwd_diag le
        extend_back.simps [of a a 0 0 True 0] extend_fwd.simps [of a a _ _ True 0 0 "length a"])
qed

lemma gmb_loop_self: "gmb_loop a a [(0, length a, 0, length a)] [] =
  (if a = [] then [] else [(0, 0, length a)])"
  by (simp add: gmb_loop.simps find_longest_match_self)

section \<open>The matched elements fit into both sequences\<close>

definition j2len_b :: "nat \<Rightarrow> (nat \<rightharpoonup> nat) \<Rightarrow> bool" where
  "j2len_b blo j2len \<longleftrightarrow> (\<forall>j v. j2len j = Some v \<longrightarrow> blo \<le> j \<and> v \<le> j + 1 - blo)"

definition inv_b :: "nat \<Rightarrow> nat \<Rightarrow> (nat \<rightharpoonup> nat) \<times> match \<Rightarrow> bool" where
  "inv_b blo bhi st = (case st of (j2len, best) \<Rightarrow> j2len_b blo j2len \<and> within_b blo bhi best)"

lemma j2lenget_b:
  assumes "j2len_b blo j2len" and "blo \<le> j"
  shows "j2lenget j2len j + 1 \<le> j + 1 - blo"
proof (cases j)
  case 0
  with assms(2) show ?thesis by (simp add: j2lenget_def)
next
  case (Suc j')
  show ?thesis
  proof (cases "j2len j'")
    case None
    with Suc assms(2) show ?thesis by (simp add: j2lenget_def)
  next
    case (Some v)
    with assms(1) have "blo \<le> j'" and "v \<le> j' + 1 - blo"
      by (simp_all add: j2len_b_def)
    with Suc Some show ?thesis by (simp add: j2lenget_def)
  qed
qed

lemma flm_inner_b:
  assumes J: "j2len_b blo j2len"
  shows "j2len_b blo newj2len \<Longrightarrow> within_b blo bhi best \<Longrightarrow>
         inv_b blo bhi (flm_inner i blo bhi j2len js (newj2len, best))"
proof (induction js arbitrary: newj2len best)
  case Nil
  then show ?case by (simp add: inv_b_def)
next
  case (Cons j js)
  obtain besti bestj bestsize where best: "best = (besti, bestj, bestsize)"
    by (metis prod_cases3)
  let ?k = "j2lenget j2len j + 1"
  show ?case
  proof (cases "j < blo")
    case True
    with Cons best show ?thesis by simp
  next
    case lo: False
    show ?thesis
    proof (cases "bhi \<le> j")
      case True
      with lo Cons.prems best show ?thesis by (simp add: inv_b_def)
    next
      case hi: False
      from lo have k: "?k \<le> j + 1 - blo"
        by (intro j2lenget_b [OF J]) simp
      with lo Cons.prems(1) have upd: "j2len_b blo (newj2len(j \<mapsto> ?k))"
        by (auto simp: j2len_b_def)
      have new: "within_b blo bhi (i + 1 - ?k, j + 1 - ?k, ?k)"
        using k lo hi by (simp add: within_b_def)
      show ?thesis
      proof (cases "bestsize < ?k")
        case True
        with lo hi best
        have eq: "flm_inner i blo bhi j2len (j # js) (newj2len, best) =
                  flm_inner i blo bhi j2len js (newj2len(j \<mapsto> ?k), i + 1 - ?k, j + 1 - ?k, ?k)"
          by (simp add: Let_def)
        show ?thesis unfolding eq by (rule Cons.IH [OF upd new])
      next
        case False
        with lo hi best
        have eq: "flm_inner i blo bhi j2len (j # js) (newj2len, best) =
                  flm_inner i blo bhi j2len js (newj2len(j \<mapsto> ?k), best)"
          by (simp add: Let_def)
        show ?thesis unfolding eq by (rule Cons.IH [OF upd Cons.prems(2)])
      qed
    qed
  qed
qed

lemma flm_row_b: "inv_b blo bhi st \<Longrightarrow> inv_b blo bhi (flm_row a b blo bhi i st)"
proof -
  assume inv: "inv_b blo bhi st"
  obtain j2len best where st: "st = (j2len, best)" by (cases st)
  with inv have "j2len_b blo j2len" and "within_b blo bhi best"
    by (simp_all add: inv_b_def)
  then have "inv_b blo bhi (flm_inner i blo bhi j2len (b2j b (a ! i)) (Map.empty, best))"
    by (intro flm_inner_b) (simp_all add: j2len_b_def)
  with st show ?thesis by simp
qed

lemma flm_fold_b: "inv_b blo bhi st \<Longrightarrow> inv_b blo bhi (fold (flm_row a b blo bhi) rows st)"
  by (induction rows arbitrary: st) (simp_all add: flm_row_b)

lemma flm_scan_within_b: "blo \<le> bhi \<Longrightarrow> within_b blo bhi (flm_scan a b alo ahi blo bhi)"
proof -
  assume "blo \<le> bhi"
  then have "inv_b blo bhi (Map.empty, alo, blo, 0)"
    by (simp add: inv_b_def j2len_b_def within_b_def)
  from flm_fold_b [OF this, of a b "[alo..<ahi]"] show ?thesis
    by (simp add: flm_scan_def inv_b_def split_beta)
qed

lemma extend_back_within_b:
  "within_b blo bhi m \<Longrightarrow> within_b blo bhi (extend_back a b alo blo junk m)"
proof -
  assume w: "within_b blo bhi m"
  obtain besti bestj bestsize where m: "m = (besti, bestj, bestsize)" by (metis prod_cases3)
  obtain bi bj bs where r: "extend_back a b alo blo junk (besti, bestj, bestsize) = (bi, bj, bs)"
    by (metis prod_cases3)
  from extend_back_bounds [OF r] w m r show ?thesis
    by (simp add: within_b_def)
qed

lemma extend_fwd_within_b:
  "within_b blo bhi m \<Longrightarrow> within_b blo bhi (extend_fwd a b ahi bhi junk m)"
proof -
  assume w: "within_b blo bhi m"
  obtain besti bestj bestsize where m: "m = (besti, bestj, bestsize)" by (metis prod_cases3)
  obtain bi bj bs where r: "extend_fwd a b ahi bhi junk (besti, bestj, bestsize) = (bi, bj, bs)"
    by (metis prod_cases3)
  from extend_fwd_bounds [OF r] w m r show ?thesis
    by (simp add: within_b_def)
qed

lemma find_longest_match_within_b:
  "blo \<le> bhi \<Longrightarrow> within_b blo bhi (find_longest_match a b alo ahi blo bhi)"
  unfolding find_longest_match_def
  by (intro extend_fwd_within_b extend_back_within_b flm_scan_within_b)

definition sizes :: "match list \<Rightarrow> nat" where
  "sizes ms = sum_list (map (\<lambda>(i, j, k). k) ms)"

definition window_ok :: "nat \<times> nat \<times> nat \<times> nat \<Rightarrow> bool" where
  "window_ok w = (case w of (alo, ahi, blo, bhi) \<Rightarrow> alo \<le> ahi \<and> blo \<le> bhi)"

definition capacity :: "nat \<times> nat \<times> nat \<times> nat \<Rightarrow> nat" where
  "capacity w = (case w of (alo, ahi, blo, bhi) \<Rightarrow> min (ahi - alo) (bhi - blo))"

lemma sizes_simps [simp]:
  "sizes [] = 0" "sizes ((i, j, k) # ms) = k + sizes ms" "sizes (xs @ ys) = sizes xs + sizes ys"
  by (simp_all add: sizes_def)

lemma gmb_loop_sizes:
  "\<forall>w\<in>set queue. window_ok w \<Longrightarrow>
   sizes (gmb_loop a b queue acc) \<le> sizes acc + sum_list (map capacity queue)"
proof (induction a b queue acc rule: gmb_loop.induct)
  case (1 a b matching_blocks)
  show ?case by (simp add: gmb_loop.simps)
next
  case (2 a b alo ahi blo bhi queue matching_blocks)
  obtain i j k where m: "find_longest_match a b alo ahi blo bhi = (i, j, k)"
    by (metis prod_cases3)
  from "2.prems" have ok: "alo \<le> ahi" "blo \<le> bhi" and rest: "\<forall>w\<in>set queue. window_ok w"
    by (simp_all add: window_ok_def)
  from find_longest_match_within_a [OF ok(1), of a b blo bhi]
    find_longest_match_within_b [OF ok(2), of a b alo ahi] m
  have b: "alo \<le> i" "i + k \<le> ahi" "blo \<le> j" "j + k \<le> bhi"
    by (simp_all add: within_a_def within_b_def)
  show ?case
  proof (cases "k = 0")
    case True
    then have nz: "\<not> k \<noteq> 0" by simp
    have eq: "gmb_loop a b ((alo, ahi, blo, bhi) # queue) matching_blocks =
              gmb_loop a b queue matching_blocks"
      using m True by (subst gmb_loop.simps) simp
    from "2.IH"(2) [OF m [symmetric] refl nz rest] show ?thesis
      unfolding eq by simp
  next
    case False
    let ?q = "(if i + k < ahi \<and> j + k < bhi then [(i + k, ahi, j + k, bhi)] else []) @
              (if alo < i \<and> blo < j then [(alo, i, blo, j)] else []) @ queue"
    have okq: "\<forall>w\<in>set ?q. window_ok w"
      using rest by (auto simp: window_ok_def)
    have cap: "k + sum_list (map capacity ?q) \<le> capacity (alo, ahi, blo, bhi) + sum_list (map capacity queue)"
      using b by (auto simp: capacity_def)
    have eq: "gmb_loop a b ((alo, ahi, blo, bhi) # queue) matching_blocks =
              gmb_loop a b ?q (matching_blocks @ [(i, j, k)])"
      using m False by (subst gmb_loop.simps) simp
    from "2.IH"(1) [OF m [symmetric] refl False okq] cap show ?thesis
      unfolding eq by simp
  qed
qed

lemma collapse_sizes:
  "sizes (collapse m non_adjacent rest) = sizes non_adjacent + snd (snd m) + sizes rest"
  by (induction m non_adjacent rest rule: collapse.induct) auto

lemma sizes_sort: "sizes (sort ms) = sizes ms"
proof -
  have "sum_mset (image_mset (\<lambda>(i, j, k). k) (mset (sort ms))) =
        sum_mset (image_mset (\<lambda>(i, j, k). k) (mset ms))"
    by simp
  then show ?thesis
    unfolding sizes_def by (metis mset_map sum_mset_sum_list)
qed

lemma sizes_get_matching_blocks:
  "sizes (get_matching_blocks a b) = sizes (gmb_loop a b [(0, length a, 0, length b)] [])"
  by (simp add: get_matching_blocks_def Let_def collapse_sizes sizes_sort)

lemma matches_le:
  "2 * sizes (get_matching_blocks a b) \<le> length a + length b"
proof -
  have "sizes (gmb_loop a b [(0, length a, 0, length b)] []) \<le> min (length a) (length b)"
    using gmb_loop_sizes [of "[(0, length a, 0, length b)]" a b "[]"]
    by (simp add: window_ok_def capacity_def)
  then show ?thesis by (simp add: sizes_get_matching_blocks)
qed

lemma ratio_sizes:
  "ratio a b = calculate_ratio (sizes (get_matching_blocks a b)) (length a + length b)"
  by (simp add: ratio_def sizes_def)

lemma ratio_range: "0 \<le> ratio a b \<and> ratio a b \<le> 1"
proof -
  have "of_nat (2 * sizes (get_matching_blocks a b)) \<le> (of_nat (length a + length b) :: rat)"
    using matches_le [of a b] by (simp only: of_nat_le_iff)
  then show ?thesis
    by (auto simp: ratio_sizes calculate_ratio_def divide_le_eq)
qed

lemma ratio_self: "ratio a a = 1"
  by (simp add: ratio_sizes sizes_get_matching_blocks gmb_loop_self calculate_ratio_def)

lemma ratio_Nil_left: "ratio [] b = (if b = [] then 1 else 0)"
  by (simp add: ratio_sizes sizes_get_matching_blocks gmb_loop.simps
      find_longest_match_empty_window calculate_ratio_def)

lemma find_longest_match_Nil_right: "find_longest_match a [] alo ahi 0 0 = (i, j, k) \<Longrightarrow> k = 0"
  using find_longest_match_within_b [of 0 0 a "[]" alo ahi] by (simp add: within_b_def)

lemma ratio_Nil_right: "ratio a [] = (if a = [] then 1 else 0)"
proof -
  obtain i j k where m: "find_longest_match a [] 0 (length a) 0 0 = (i, j, k)"
    by (metis prod_cases3)
  from find_longest_match_Nil_right [OF m] m show ?thesis
    by (simp add: ratio_sizes sizes_get_matching_blocks gmb_loop.simps calculate_ratio_def)
qed

lemma py_round_range: "0 \<le> x \<Longrightarrow> x \<le> 1 \<Longrightarrow> 0 \<le> py_round x n \<and> py_round x n \<le> 1"
proof -
  assume x: "0 \<le> x" "x \<le> 1"
  define y where "y = x * 10 ^ n"
  define f where "f = \<lfloor>y\<rfloor>"
  define d where "d = y - of_int f"
  define k where "k = (if d < 1 / 2 then f else if 1 / 2 < d then f + 1
                       else if even f then f else f + 1)"
  have y: "0 \<le> y" "y \<le> 10 ^ n"
    using x by (simp_all add: y_def mult_left_le_one_le)
  have f0: "0 \<le> f" using y(1) by (simp add: f_def)
  have "f \<le> \<lfloor>(10 ^ n :: rat)\<rfloor>"
    unfolding f_def using y(2) by (rule floor_mono)
  also have "\<lfloor>(10 ^ n :: rat)\<rfloor> = 10 ^ n"
    by (metis floor_of_int of_int_numeral of_int_power)
  finally have f1: "f \<le> 10 ^ n" .
  have k0: "0 \<le> k" using f0 by (simp add: k_def)
  have k1: "k \<le> 10 ^ n"
  proof (cases "f = 10 ^ n")
    case True
    have "of_int f \<le> y" by (simp add: f_def)
    moreover have "y \<le> of_int f" using y(2) True by simp
    ultimately have "d = 0" by (simp add: d_def)
    with True show ?thesis by (simp add: k_def)
  next
    case False
    with f1 have "f + 1 \<le> 10 ^ n" by simp
    with f1 show ?thesis by (simp add: k_def)
  qed
  have "(of_int k :: rat) \<le> of_int (10 ^ n)" using k1 by (simp only: of_int_le_iff)
  with k0 have "0 \<le> (of_int k :: rat) / 10 ^ n \<and> (of_int k :: rat) / 10 ^ n \<le> 1"
    by (simp add: divide_le_eq)
  moreover have "py_round x n = of_int k / 10 ^ n"
    by (simp add: py_round_def Let_def k_def d_def f_def y_def)
  ultimately show ?thesis by simp
qed

section \<open>Properties of \<^verbatim>\<open>calculate_similarity\<close>\<close>

lemma normalize_all_Inr: "normalize_all lines = Inr (map normalize_spec lines)"
  by (induction lines) (simp_all add: normalize_assembly_line_Inr)

lemma extract_instructions_Inr: "extract_instructions lines = Inr (extract_spec lines)"
  using extract_loop_spec [of lines "[]"] by (simp add: extract_instructions_def)

lemma similarity_of_lines_eq:
  "similarity_of_lines lines1 lines2 =
     Inr \<lparr>line_similarity = py_round (line_ratio lines1 lines2) 4,
          instruction_similarity = py_round (inst_ratio lines1 lines2) 4,
          overall_similarity =
            py_round (line_ratio lines1 lines2 * (6 / 10) + inst_ratio lines1 lines2 * (4 / 10)) 4\<rparr>"
  by (simp add: similarity_of_lines_def normalize_all_Inr extract_instructions_Inr Let_def
      line_ratio_def inst_ratio_def norm_lines_def)

lemma calculate_similarity_readable:
  "fs p1 = Content lines1 \<Longrightarrow> fs p2 = Content lines2 \<Longrightarrow>
   calculate_similarity fs p1 p2 = similarity_of_lines lines1 lines2"
  by (simp add: calculate_similarity_def read_files_def)

lemma py_round_0: "py_round 0 4 = 0"
  by (simp add: py_round_def)

lemma py_round_1: "py_round 1 4 = 1"
  by (simp add: py_round_def)

lemma line_ratio_range: "0 \<le> line_ratio l1 l2 \<and> line_ratio l1 l2 \<le> 1"
  by (simp add: line_ratio_def ratio_range)

lemma inst_ratio_range: "0 \<le> inst_ratio l1 l2 \<and> inst_ratio l1 l2 \<le> 1"
  by (simp add: inst_ratio_def ratio_range)

lemma overall_range:
  fixes x y :: rat
  assumes "0 \<le> x \<and> x \<le> 1" and "0 \<le> y \<and> y \<le> 1"
  shows "0 \<le> x * (6 / 10) + y * (4 / 10) \<and> x * (6 / 10) + y * (4 / 10) \<le> 1"
  using assms by auto

lemma similarity_of_lines_range:
  "similarity_of_lines l1 l2 = Inr r \<Longrightarrow>
   0 \<le> line_similarity r \<and> line_similarity r \<le> 1 \<and>
   0 \<le> instruction_similarity r \<and> instruction_similarity r \<le> 1 \<and>
   0 \<le> overall_similarity r \<and> overall_similarity r \<le> 1"
  using py_round_range [of "line_ratio l1 l2" 4] py_round_range [of "inst_ratio l1 l2" 4]
    py_round_range [of "line_ratio l1 l2 * (6 / 10) + inst_ratio l1 l2 * (4 / 10)" 4]
    line_ratio_range [of l1 l2] inst_ratio_range [of l1 l2]
    overall_range [OF line_ratio_range [of l1 l2] inst_ratio_range [of l1 l2]]
  by (auto simp: similarity_of_lines_eq)

lemma extract_spec_norm_lines:
  "extract_spec lines = map first_token (filter is_instruction_line (norm_lines lines))"
proof -
  have "(\<lambda>n. n \<noteq> [] \<and> is_instruction_line n) = is_instruction_line"
    by (auto simp: is_instruction_line_def)
  then show ?thesis
    by (simp add: extract_spec_def norm_lines_def)
qed

lemma similarity_depends_on_norm_lines:
  "norm_lines l1 = norm_lines l1' \<Longrightarrow> norm_lines l2 = norm_lines l2' \<Longrightarrow>
   similarity_of_lines l1 l2 = similarity_of_lines l1' l2'"
  by (simp add: similarity_of_lines_eq line_ratio_def inst_ratio_def extract_spec_norm_lines)

lemma line_ratio_self: "line_ratio l l = 1"
  by (simp add: line_ratio_def ratio_self)

lemma inst_ratio_self: "extract_spec l \<noteq> [] \<Longrightarrow> inst_ratio l l = 1"
  by (simp add: inst_ratio_def ratio_self)

lemma line_ratio_sym_Nil: "norm_lines A = [] \<Longrightarrow> line_ratio A B = line_ratio B A"
  by (simp add: line_ratio_def ratio_Nil_left ratio_Nil_right)

lemma inst_ratio_sym_Nil: "norm_lines A = [] \<Longrightarrow> inst_ratio A B = inst_ratio B A"
  by (simp add: inst_ratio_def extract_spec_norm_lines ratio_Nil_left ratio_Nil_right)


section \<open>The sample files, evaluated\<close>

lemmas str_eval = u_def isspace_def normalize_spec_def truncate_at_def strip_def lstrip_def
  rstrip_def extract_spec_def is_instruction_line_def re_match_label_def label_first_def
  label_rest_def startswith_def first_token_def norm_lines_def

lemma sample_fs_readable:
  "sample_fs ''generated.s'' = Content generated_s"
  "sample_fs ''unoptimized.s'' = Content unoptimized_s"
  "sample_fs ''edited.s'' = Content edited_s"
  "sample_fs ''first.s'' = Content first_s"
  "sample_fs ''second.s'' = Content second_s"
  "sample_fs ''comment.s'' = Content comment_s"
  "sample_fs ''labels1.s'' = Content labels1_s"
  "sample_fs ''labels2.s'' = Content labels2_s"
  "sample_fs ''three.s'' = Content three_s"
  "sample_fs ''four.s'' = Content four_s"
  by (simp_all add: sample_fs_def)

lemma sample_fs_unreadable:
  "sample_fs ''locked.s'' = Raises PermissionError"
  "sample_fs ''absent.s'' = Raises FileNotFoundError"
  by (simp_all add: sample_fs_def)

lemma sample_norm_lines:
  "norm_lines generated_s = [u ''mov eax, 1'', u ''ret'']"
  "norm_lines unoptimized_s = [u ''mov eax, 1'', u ''ret'']"
  "norm_lines edited_s = [u ''mov eax, 1'', u ''ret'']"
  "norm_lines first_s = [u ''nop'', u ''ret'', u ''cld'', u ''hlt'']"
  "norm_lines second_s = [u ''cld'', u ''ret'', u ''hlt'', u ''nop'']"
  "norm_lines comment_s = []"
  "norm_lines labels1_s = [u ''foo:'', u ''.text'']"
  "norm_lines labels2_s = [u ''bar:'', u ''.data'']"
  "norm_lines three_s = [u ''mov a'', u ''add b'', u ''ret x'']"
  "norm_lines four_s = [u ''mov c'', u ''add d'', u ''ret y'', u ''nop'']"
  by (simp_all add: generated_s_def unoptimized_s_def edited_s_def first_s_def second_s_def
      comment_s_def labels1_s_def labels2_s_def three_s_def four_s_def str_eval)

lemma sample_extract_spec:
  "extract_spec generated_s = [u ''mov'', u ''ret'']"
  "extract_spec first_s = [u ''nop'', u ''ret'', u ''cld'', u ''hlt'']"
  "extract_spec second_s = [u ''cld'', u ''ret'', u ''hlt'', u ''nop'']"
  "extract_spec comment_s = []"
  "extract_spec labels1_s = []"
  "extract_spec labels2_s = []"
  "extract_spec three_s = [u ''mov'', u ''add'', u ''ret'']"
  "extract_spec four_s = [u ''mov'', u ''add'', u ''ret'', u ''nop'']"
  by (simp_all add: generated_s_def first_s_def second_s_def
      comment_s_def labels1_s_def labels2_s_def three_s_def four_s_def str_eval)

lemma sample_ratio_first_second:
  "ratio [u ''nop'', u ''ret'', u ''cld'', u ''hlt''] [u ''cld'', u ''ret'', u ''hlt'', u ''nop''] = 1 / 4"
  by code_simp

lemma sample_ratio_second_first:
  "ratio [u ''cld'', u ''ret'', u ''hlt'', u ''nop''] [u ''nop'', u ''ret'', u ''cld'', u ''hlt''] = 1 / 2"
  by code_simp

lemma sample_ratio_labels:
  "ratio [u ''foo:'', u ''.text''] [u ''bar:'', u ''.data''] = 0"
  by code_simp

lemma sample_ratio_three_four_lines:
  "ratio [u ''mov a'', u ''add b'', u ''ret x''] [u ''mov c'', u ''add d'', u ''ret y'', u ''nop''] = 0"
  by code_simp

lemma sample_ratio_three_four_tokens:
  "ratio [u ''mov'', u ''add'', u ''ret''] [u ''mov'', u ''add'', u ''ret'', u ''nop''] = 6 / 7"
  by code_simp

lemma py_round_samples:
  "py_round (1 / 4) 4 = 1 / 4" "py_round (1 / 2) 4 = 1 / 2" "py_round (6 / 10) 4 = 6 / 10"
  "py_round (6 / 7) 4 = 8571 / 10000" "py_round (24 / 70) 4 = 3429 / 10000"
  "py_round (8571 / 10000 * (4 / 10)) 4 = 3428 / 10000"
  by code_simp+

lemmas sample_eval = similarity_of_lines_eq line_ratio_def inst_ratio_def sample_norm_lines
  sample_extract_spec sample_ratio_first_second sample_ratio_second_first sample_ratio_labels
  sample_ratio_three_four_lines sample_ratio_three_four_tokens ratio_self ratio_Nil_left
  py_round_def

section \<open>The claims about normalisation and extraction\<close>

text \<open>
  C6: \<^verbatim>\<open>normalize_assembly_line\<close> is total: on every string it returns, without
  raising, the input truncated at the first \<^verbatim>\<open>#\<close>, then at the first \<^verbatim>\<open>;\<close>, then
  stripped of leading and trailing whitespace; on the empty string it returns the empty
  string.
\<close>

theorem normalize_assembly_line_total:
  "normalize_assembly_line line =
     Inr (strip (takeWhile (\<lambda>c. c \<noteq> semicolon) (takeWhile (\<lambda>c. c \<noteq> hash) line))) \<and>
   normalize_assembly_line line = Inr (normalize_spec line) \<and>
   normalize_assembly_line [] = Inr []"
  by (simp add: normalize_assembly_line_Inr normalize_spec_def truncate_at_def strip_Nil)

text \<open>
  C10: \<^verbatim>\<open>normalize_assembly_line\<close> is idempotent: its result \<open>n\<close> is mapped to itself,
  because \<open>n\<close> contains neither \<^verbatim>\<open>#\<close> nor \<^verbatim>\<open>;\<close> and stripping leaves it unchanged.
\<close>

theorem normalize_assembly_line_idempotent:
  "\<exists>n. normalize_assembly_line s = Inr n \<and> normalize_assembly_line n = Inr n \<and>
       hash \<notin> set n \<and> semicolon \<notin> set n \<and> strip n = n"
  by (simp add: normalize_assembly_line_Inr normalize_spec_idem normalize_spec_no_marker
      normalize_spec_strip)

text \<open>
  C7: \<^verbatim>\<open>extract_instructions\<close> returns, in the order of the lines, the first
  whitespace-delimited token of every line whose normalisation is non-empty, does not
  match the label pattern and does not start with a dot; the other lines contribute
  nothing.
\<close>

theorem extract_instructions_spec:
  "extract_instructions lines =
     Inr (map first_token
            (filter (\<lambda>n. n \<noteq> [] \<and> \<not> re_match_label n \<and> \<not> startswith n dot)
               (map normalize_spec lines)))"
  using extract_loop_spec [of lines "[]"]
  by (simp add: extract_instructions_def extract_spec_def is_instruction_line_def [abs_def])

section \<open>The claims about \<^verbatim>\<open>calculate_similarity\<close>\<close>

text \<open>
  The similarity values are floating-point numbers in the program and rational numbers
  here: every quotient, product and sum is exact, and \<open>py_round\<close> rounds the exact
  value. The values \<open>0\<close> and \<open>1\<close>, equalities between results and the bounds below do
  not depend on the difference.
\<close>

text \<open>
  C8: whatever the two paths hold, \<^verbatim>\<open>calculate_similarity\<close> either returns a result whose
  three fields lie between \<open>0\<close> and \<open>1\<close>, or it raises the exception of a failed read
  (one that is not \<^verbatim>\<open>FileNotFoundError\<close>) and returns no result at all.
\<close>

theorem similarity_fields_in_unit_interval:
  "case calculate_similarity fs p1 p2 of
     Inr r \<Rightarrow>
       0 \<le> line_similarity r \<and> line_similarity r \<le> 1 \<and>
       0 \<le> instruction_similarity r \<and> instruction_similarity r \<le> 1 \<and>
       0 \<le> overall_similarity r \<and> overall_similarity r \<le> 1
   | Inl e \<Rightarrow> e \<noteq> FileNotFoundError \<and> (fs p1 = Raises e \<or> fs p2 = Raises e)"
proof (cases "read_files fs p1 p2")
  case (Inl e)
  then have "fs p1 = Raises e \<or> fs p2 = Raises e"
    by (auto simp: read_files_def split: read_outcome.splits)
  with Inl show ?thesis
    by (simp add: calculate_similarity_def zero_result_def)
next
  case (Inr ls)
  obtain l1 l2 where ls: "ls = (l1, l2)" by (cases ls)
  show ?thesis
  proof (cases "similarity_of_lines l1 l2")
    case (Inl e)
    then show ?thesis by (simp add: similarity_of_lines_eq)
  next
    case r: (Inr r)
    from similarity_of_lines_range [OF r] r Inr ls show ?thesis
      by (simp add: calculate_similarity_def)
  qed
qed

text \<open>
  C1, as stated, fails: a read that raises \<^verbatim>\<open>PermissionError\<close> is not caught, whichever
  of the two files it concerns.
\<close>

theorem unreadable_counterexample:
  "sample_fs ''locked.s'' = Raises PermissionError \<and>
   calculate_similarity sample_fs ''locked.s'' ''unoptimized.s'' = Inl PermissionError \<and>
   calculate_similarity sample_fs ''generated.s'' ''locked.s'' = Inl PermissionError"
  by (simp add: calculate_similarity_def read_files_def sample_fs_readable sample_fs_unreadable)

text \<open>
  C1, amended: when the first file is missing, or the first is readable and the second
  is missing, \<^verbatim>\<open>calculate_similarity\<close> returns the result with three zeros and does not
  raise; on a readable pair it returns a result; any other exception of a read
  propagates to the caller.
\<close>

theorem missing_file_fallback:
  "(fs p1 = Raises FileNotFoundError \<or>
      fs p1 = Content lines1 \<and> fs p2 = Raises FileNotFoundError \<longrightarrow>
      calculate_similarity fs p1 p2 = Inr zero_result) \<and>
   (fs p1 = Content lines1 \<and> fs p2 = Content lines2 \<longrightarrow>
      (\<exists>r. calculate_similarity fs p1 p2 = Inr r)) \<and>
   (e \<noteq> FileNotFoundError \<and> (fs p1 = Raises e \<or> fs p1 = Content lines1 \<and> fs p2 = Raises e) \<longrightarrow>
      calculate_similarity fs p1 p2 = Inl e)"
  by (auto simp: calculate_similarity_def read_files_def similarity_of_lines_eq)

text \<open>The amended C1 at four pairs of paths, one for each of its hypotheses.\<close>

theorem missing_file_fallback_witness:
  "sample_fs ''absent.s'' = Raises FileNotFoundError \<and>
   calculate_similarity sample_fs ''absent.s'' ''unoptimized.s'' = Inr zero_result \<and>
   sample_fs ''generated.s'' = Content generated_s \<and>
   calculate_similarity sample_fs ''generated.s'' ''absent.s'' = Inr zero_result \<and>
   sample_fs ''unoptimized.s'' = Content unoptimized_s \<and>
   (\<exists>r. calculate_similarity sample_fs ''generated.s'' ''unoptimized.s'' = Inr r) \<and>
   PermissionError \<noteq> FileNotFoundError \<and> sample_fs ''locked.s'' = Raises PermissionError \<and>
   calculate_similarity sample_fs ''locked.s'' ''absent.s'' = Inl PermissionError"
  using sample_fs_readable(1,2) sample_fs_unreadable
    missing_file_fallback [of sample_fs "''absent.s''" generated_s "''unoptimized.s''" unoptimized_s]
    missing_file_fallback [of sample_fs "''generated.s''" generated_s "''absent.s''" unoptimized_s]
    missing_file_fallback [of sample_fs "''generated.s''" generated_s "''unoptimized.s''" unoptimized_s]
    missing_file_fallback [of sample_fs "''locked.s''" generated_s "''absent.s''" unoptimized_s
      PermissionError]
  by simp

text \<open>
  C2, as stated, fails: a readable, non-empty file that holds only a comment and a
  blank line, compared with itself, has instruction similarity \<open>0\<close> and overall
  similarity \<open>0.6\<close>.
\<close>

theorem identity_counterexample:
  "sample_fs ''comment.s'' = Content comment_s \<and> comment_s \<noteq> [] \<and>
   calculate_similarity sample_fs ''comment.s'' ''comment.s'' =
     Inr \<lparr>line_similarity = 1, instruction_similarity = 0, overall_similarity = 6 / 10\<rparr>"
proof -
  have "comment_s \<noteq> []"
    by (simp add: comment_s_def)
  then show ?thesis
    by (simp add: calculate_similarity_readable [of sample_fs, OF sample_fs_readable(6) sample_fs_readable(6)]
        sample_fs_readable sample_eval)
qed

text \<open>
  C2, amended: for every readable text from which \<^verbatim>\<open>extract_instructions\<close> extracts at
  least one token, the similarity of the text with itself is \<open>1\<close> in all three fields.
\<close>

theorem identity_with_instructions:
  assumes "fs p1 = Content A" and "fs p2 = Content A"
    and "extract_instructions A = Inr instructions" and "instructions \<noteq> []"
  shows "calculate_similarity fs p1 p2 =
           Inr \<lparr>line_similarity = 1, instruction_similarity = 1, overall_similarity = 1\<rparr>"
proof -
  from assms(3,4) have "extract_spec A \<noteq> []"
    by (simp add: extract_instructions_Inr)
  then show ?thesis
    by (simp add: calculate_similarity_readable [OF assms(1,2)] similarity_of_lines_eq
        line_ratio_self inst_ratio_self py_round_1)
qed

text \<open>The amended C2 at a file of two instructions.\<close>

theorem identity_with_instructions_witness:
  "sample_fs ''generated.s'' = Content generated_s \<and>
   extract_instructions generated_s = Inr [u ''mov'', u ''ret''] \<and>
   [u ''mov'', u ''ret''] \<noteq> [] \<and>
   calculate_similarity sample_fs ''generated.s'' ''generated.s'' =
     Inr \<lparr>line_similarity = 1, instruction_similarity = 1, overall_similarity = 1\<rparr>"
proof -
  have h1: "sample_fs ''generated.s'' = Content generated_s"
    by (rule sample_fs_readable)
  have h2: "extract_instructions generated_s = Inr [u ''mov'', u ''ret'']"
    by (simp add: extract_instructions_Inr sample_extract_spec)
  have h3: "[u ''mov'', u ''ret''] \<noteq> []"
    by simp
  from identity_with_instructions [of sample_fs "''generated.s''" generated_s "''generated.s''",
      OF h1 h1 h2 h3] h1 h2 h3
  show ?thesis by simp
qed

text \<open>
  C3, as stated, fails: the four lines \<^verbatim>\<open>nop, ret, cld, hlt\<close> against
  \<^verbatim>\<open>cld, ret, hlt, nop\<close> score \<open>0.25\<close>, and \<open>0.5\<close> with the arguments exchanged.
\<close>

theorem symmetry_counterexample:
  "calculate_similarity sample_fs ''first.s'' ''second.s'' =
     Inr \<lparr>line_similarity = 1 / 4, instruction_similarity = 1 / 4, overall_similarity = 1 / 4\<rparr> \<and>
   calculate_similarity sample_fs ''second.s'' ''first.s'' =
     Inr \<lparr>line_similarity = 1 / 2, instruction_similarity = 1 / 2, overall_similarity = 1 / 2\<rparr>"
  by (simp add: calculate_similarity_readable [of sample_fs, OF sample_fs_readable(4) sample_fs_readable(5)]
      calculate_similarity_readable [of sample_fs, OF sample_fs_readable(5) sample_fs_readable(4)] sample_eval)

text \<open>
  C3, amended: for readable texts whose sequences of non-empty normalised lines are
  equal, or of which one has no such line, exchanging the arguments leaves all three
  fields unchanged.
\<close>

theorem symmetry_restricted:
  assumes "fs p1 = Content A" and "fs p2 = Content B"
    and "norm_lines A = norm_lines B \<or> norm_lines A = [] \<or> norm_lines B = []"
  shows "calculate_similarity fs p1 p2 = calculate_similarity fs p2 p1"
proof -
  have "similarity_of_lines A B = similarity_of_lines B A"
    using assms(3)
  proof (elim disjE)
    assume "norm_lines A = norm_lines B"
    then show ?thesis
      by (intro similarity_depends_on_norm_lines) simp_all
  next
    assume n: "norm_lines A = []"
    have "line_ratio A B = line_ratio B A" by (rule line_ratio_sym_Nil [OF n])
    moreover have "inst_ratio A B = inst_ratio B A" by (rule inst_ratio_sym_Nil [OF n])
    ultimately show ?thesis by (simp only: similarity_of_lines_eq)
  next
    assume n: "norm_lines B = []"
    have "line_ratio A B = line_ratio B A" by (rule line_ratio_sym_Nil [OF n, symmetric])
    moreover have "inst_ratio A B = inst_ratio B A" by (rule inst_ratio_sym_Nil [OF n, symmetric])
    ultimately show ?thesis by (simp only: similarity_of_lines_eq)
  qed
  then show ?thesis
    by (simp add: calculate_similarity_readable [OF assms(1,2)]
        calculate_similarity_readable [OF assms(2,1)])
qed

text \<open>The amended C3 at a file of comments against a file of three instructions.\<close>

theorem symmetry_restricted_witness:
  "sample_fs ''comment.s'' = Content comment_s \<and> sample_fs ''three.s'' = Content three_s \<and>
   norm_lines comment_s = [] \<and>
   calculate_similarity sample_fs ''comment.s'' ''three.s'' =
     calculate_similarity sample_fs ''three.s'' ''comment.s''"
  using symmetry_restricted [of sample_fs "''comment.s''" comment_s "''three.s''" three_s]
    sample_fs_readable(6,9) sample_norm_lines(6)
  by simp

text \<open>
  C4, as stated, fails in its last part: labels and directives are normalised lines, so
  two files that hold only comments, blank lines, labels and directives can have line
  similarity \<open>0\<close>.
\<close>

theorem empty_sequences_counterexample:
  "sample_fs ''labels1.s'' = Content labels1_s \<and> sample_fs ''labels2.s'' = Content labels2_s \<and>
   extract_instructions labels1_s = Inr [] \<and> extract_instructions labels2_s = Inr [] \<and>
   calculate_similarity sample_fs ''labels1.s'' ''labels2.s'' =
     Inr \<lparr>line_similarity = 0, instruction_similarity = 0, overall_similarity = 0\<rparr>"
  by (simp add: calculate_similarity_readable [of sample_fs, OF sample_fs_readable(7) sample_fs_readable(8)]
      sample_fs_readable sample_eval extract_instructions_Inr)

text \<open>
  C4, amended: on a readable pair, the instruction similarity is \<open>0\<close> when both token
  sequences are empty, and the line similarity is \<open>1\<close> when both sequences of non-empty
  normalised lines are empty; two files that hold only comments and blank lines have
  line similarity \<open>1\<close>, instruction similarity \<open>0\<close> and overall similarity \<open>0.6\<close>.
\<close>

theorem empty_sequences_convention:
  assumes "fs p1 = Content A" and "fs p2 = Content B"
  shows "\<exists>r. calculate_similarity fs p1 p2 = Inr r \<and>
    (extract_instructions A = Inr [] \<and> extract_instructions B = Inr [] \<longrightarrow>
       instruction_similarity r = 0) \<and>
    (norm_lines A = [] \<and> norm_lines B = [] \<longrightarrow> line_similarity r = 1) \<and>
    ((\<forall>l\<in>set A \<union> set B. normalize_assembly_line l = Inr []) \<longrightarrow>
       line_similarity r = 1 \<and> instruction_similarity r = 0 \<and> overall_similarity r = 6 / 10)"
proof -
  have blank: "norm_lines A = [] \<and> norm_lines B = []"
    if "\<forall>l\<in>set A \<union> set B. normalize_assembly_line l = Inr []"
    using that by (auto simp: norm_lines_def normalize_assembly_line_Inr filter_empty_conv)
  have none: "extract_spec L = []" if "norm_lines L = []" for L
    using that by (simp add: extract_spec_norm_lines)
  have six: "py_round (6 / 10) 4 = 6 / 10"
    by (simp add: py_round_def)
  show ?thesis
    using blank none [of A] none [of B] six
    by (auto simp: calculate_similarity_readable [OF assms] similarity_of_lines_eq
        extract_instructions_Inr line_ratio_def inst_ratio_def ratio_Nil_left py_round_0
        py_round_1)
qed

text \<open>
  The amended C4 at a file of comments, and at a file of a label and a directive, each
  compared with itself.
\<close>

theorem empty_sequences_convention_witness:
  "sample_fs ''comment.s'' = Content comment_s \<and> sample_fs ''labels1.s'' = Content labels1_s \<and>
   list_all (\<lambda>l. normalize_assembly_line l = Inr []) comment_s \<and>
   extract_instructions labels1_s = Inr [] \<and>
   (\<exists>r. calculate_similarity sample_fs ''comment.s'' ''comment.s'' = Inr r \<and>
        line_similarity r = 1 \<and> instruction_similarity r = 0 \<and> overall_similarity r = 6 / 10) \<and>
   (\<exists>r. calculate_similarity sample_fs ''labels1.s'' ''labels1.s'' = Inr r \<and>
        instruction_similarity r = 0)"
proof -
  have h1: "sample_fs ''comment.s'' = Content comment_s"
    and h2: "sample_fs ''labels1.s'' = Content labels1_s"
    by (rule sample_fs_readable)+
  have h3: "\<forall>l\<in>set comment_s \<union> set comment_s. normalize_assembly_line l = Inr []"
    by (simp add: comment_s_def normalize_assembly_line_Inr str_eval)
  have h4: "extract_instructions labels1_s = Inr []"
    by (simp add: extract_instructions_Inr sample_extract_spec)
  from h3 have h5: "list_all (\<lambda>l. normalize_assembly_line l = Inr []) comment_s"
    by (simp add: list_all_iff)
  from empty_sequences_convention [of sample_fs, OF h1 h1]
    empty_sequences_convention [of sample_fs, OF h2 h2] h1 h2 h3 h4 h5
  show ?thesis by auto
qed



end
